theory Spec2Isabelle
  imports Complex_Main
begin

section \<open>Numbers and data of the canvas renderer\<close>

text \<open>
  The renderer of \<^verbatim>\<open>src/components/ReusableCanvas.tsx\<close> computes with JavaScript
  numbers. They are modelled as the real numbers they stand for: arithmetic is exact, and
  the non-finite values (NaN, the infinities) are written out as \<open>None\<close> at the one
  place where the code can produce them from finite input (a division by zero).
\<close>

subsection \<open>Points\<close>


record calc =
  px :: real
  py :: real
  pvalue :: real
  ptime :: string

section \<open>Layout: from points to pixel coordinates\<close>

subsection \<open>Times of day\<close>


definition isDigit :: "char \<Rightarrow> bool" where
  "isDigit c \<longleftrightarrow> (48::nat) \<le> of_char c \<and> of_char c \<le> (57::nat)"

definition digitValue :: "char \<Rightarrow> nat" where
  "digitValue c = of_char c - 48"


definition digitChar :: "nat \<Rightarrow> char" where
  "digitChar d = ''0123456789'' ! d"

fun showNat :: "nat \<Rightarrow> string" where
  "showNat n = (if n < 10 then [digitChar n] else showNat (n div 10) @ [digitChar (n mod 10)])"

declare showNat.simps [simp del]

definition padStart2 :: "string \<Rightarrow> string" where
  "padStart2 s = replicate (2 - length s) CHR ''0'' @ s"



subsection \<open>Scaling (lines 188--216 of recordAnimation)\<close>









subsection \<open>Segments and total length (lines 218--227)\<close>

text \<open>
  The loop over \<open>i < calculatedPoints.length - 1\<close>, with its two accumulators
  \<^verbatim>\<open>segments\<close> and \<^verbatim>\<open>totalLength\<close>.
\<close>

fun segmentLoop :: "calc list \<Rightarrow> real list \<times> real \<Rightarrow> real list \<times> real" where
  "segmentLoop (a # b # rest) (segments, totalLength) =
     (let dx = px b - px a;
          dy = py b - py a;
          len = sqrt (dx * dx + dy * dy)
      in segmentLoop (b # rest) (segments @ [len], totalLength + len))"
| "segmentLoop [a] acc = acc"
| "segmentLoop [] acc = acc"

definition segmentsOf :: "calc list \<Rightarrow> real list" where
  "segmentsOf cps = fst (segmentLoop cps ([], 0))"

definition totalLengthOf :: "calc list \<Rightarrow> real" where
  "totalLengthOf cps = snd (segmentLoop cps ([], 0))"


section \<open>The label pass\<close>

subsection \<open>Label boxes (lines 406--471 of animate)\<close>

text \<open>
  A placed label is the object \<^verbatim>\<open>{left, right, top, bottom}\<close>. The field names carry
  the prefix \<open>b\<close>, since \<open>top\<close> is a constant of HOL.
\<close>

record box =
  bleft :: real
  bright :: real
  btop :: real
  bbottom :: real


definition spacing :: real where
  "spacing = 12"

text \<open>
  \<^verbatim>\<open>overlaps(a, b) = !(a.right <= b.left || a.left >= b.right ||
  a.bottom <= b.top || a.top >= b.bottom)\<close>
\<close>

definition overlaps :: "box \<Rightarrow> box \<Rightarrow> bool" where
  "overlaps a b \<longleftrightarrow>
     \<not> (bright a \<le> bleft b \<or> bleft a \<ge> bright b \<or> bbottom a \<le> btop b \<or> btop a \<ge> bbottom b)"

text \<open>
  One run of \<^verbatim>\<open>for (const placed of placedLabels)\<close>: the state is the candidate box
  and the flag \<open>moved\<close>; a placed box that the candidate overlaps moves the candidate's
  top to that box's bottom plus the spacing.
\<close>

fun forPlaced :: "real \<Rightarrow> box list \<Rightarrow> box \<times> bool \<Rightarrow> box \<times> bool" where
  "forPlaced boxHeight [] st = st"
| "forPlaced boxHeight (placed # rest) (bx, moved) =
     (if overlaps bx placed
      then (let t = bbottom placed + spacing
            in forPlaced boxHeight rest (bx\<lparr>btop := t, bbottom := t + boxHeight\<rparr>, True))
      else forPlaced boxHeight rest (bx, moved))"



lemma forPlaced_flag_keep:
  "m \<Longrightarrow> snd (forPlaced h ps (bx, m))"
  by (induction ps arbitrary: bx m) (simp_all add: Let_def)


lemma forPlaced_snd_flag:
  "snd (forPlaced h ps (bx, m)) \<longleftrightarrow> m \<or> snd (forPlaced h ps (bx, False))"
proof (induction ps arbitrary: bx m)
  case Nil
  then show ?case by simp
next
  case (Cons p ps)
  show ?case
  proof (cases "overlaps bx p")
    case True
    then show ?thesis by (simp add: Let_def forPlaced_flag_keep)
  next
    case False
    then show ?thesis using Cons.IH [of bx m] by simp
  qed
qed



















subsection \<open>Facts about the collision loop\<close>













section \<open>Claims about the label pass\<close>







lemma digitChar_isDigit: "d < 10 \<Longrightarrow> isDigit (digitChar d)"
proof -
  assume "d < 10"
  then have "d \<in> {0,1,2,3,4,5,6,7,8,9}" by auto
  then show ?thesis by (auto simp: digitChar_def isDigit_def)
qed

section \<open>Claims about the layout\<close>

















section \<open>The moving marker (lines 494--517 of animate)\<close>





text \<open>The segment lengths as a recursive list, to reason about the accumulating loop.\<close>

fun segmentList :: "calc list \<Rightarrow> real list" where
  "segmentList (a # b # rest) = sqrt ((px b - px a) * (px b - px a) + (py b - py a) * (py b - py a)) # segmentList (b # rest)"
| "segmentList [a] = []"
| "segmentList [] = []"

lemma segmentLoop_acc:
  "segmentLoop cps (segs, tot) = (segs @ segmentList cps, tot + sum_list (segmentList cps))"
  by (induction cps arbitrary: segs tot rule: segmentList.induct) (simp_all add: Let_def)

lemma segmentsOf_list: "segmentsOf cps = segmentList cps"
  by (simp add: segmentsOf_def segmentLoop_acc)

lemma totalLengthOf_sum: "totalLengthOf cps = sum_list (segmentList cps)"
  by (simp add: totalLengthOf_def segmentLoop_acc)

lemma segmentList_nonneg: "s \<in> set (segmentList cps) \<Longrightarrow> 0 \<le> s"
  by (induction cps rule: segmentList.induct) auto

lemma segmentList_sum_nonneg: "0 \<le> sum_list (segmentList cps)"
  by (rule sum_list_nonneg) (rule segmentList_nonneg)













section \<open>The path line (lines 343--375 of animate)\<close>

text \<open>
  The loop strokes one line per segment while \<^verbatim>\<open>remaining\<close> is positive: the whole
  segment when \<^verbatim>\<open>remaining >= seg\<close>, otherwise the part of it that is left, after which
  \<^verbatim>\<open>remaining\<close> is 0 and the next round leaves the loop. A stroke is recorded with the
  \<^verbatim>\<open>strokeStyle\<close> in force and the arguments of \<^verbatim>\<open>moveTo\<close> and \<^verbatim>\<open>lineTo\<close>.
\<close>

definition increaseColor :: string where
  "increaseColor = ''#16a34a''"

definition decreaseColor :: string where
  "decreaseColor = ''#dc2626''"

record stroke =
  strokeStyle :: string
  moveToX :: real
  moveToY :: real
  lineToX :: real
  lineToY :: real

fun drawLine :: "calc list \<Rightarrow> real list \<Rightarrow> real \<Rightarrow> stroke list" where
  "drawLine (start # endp # rest) (seg # segs) remaining =
     (if remaining \<le> 0 then []
      else (let style = (if pvalue endp \<ge> pvalue start then increaseColor else decreaseColor)
            in if remaining \<ge> seg
               then \<lparr>strokeStyle = style, moveToX = px start, moveToY = py start,
                      lineToX = px endp, lineToY = py endp\<rparr>
                    # drawLine (endp # rest) segs (remaining - seg)
               else (let r = remaining / seg
                     in \<lparr>strokeStyle = style, moveToX = px start, moveToY = py start,
                          lineToX = px start + (px endp - px start) * r,
                          lineToY = py start + (py endp - py start) * r\<rparr>
                        # drawLine (endp # rest) segs 0)))"
| "drawLine cps segs remaining = []"

lemma drawLine_length: "length (drawLine cps segs r) \<le> length cps - 1"
  by (induction cps segs r rule: drawLine.induct) (simp_all add: Let_def)

lemma drawLine_nth:
  "i < length (drawLine cps segs r) \<Longrightarrow>
     strokeStyle (drawLine cps segs r ! i)
       = (if pvalue (cps ! Suc i) \<ge> pvalue (cps ! i) then increaseColor else decreaseColor) \<and>
     moveToX (drawLine cps segs r ! i) = px (cps ! i) \<and>
     moveToY (drawLine cps segs r ! i) = py (cps ! i)"
proof (induction cps segs r arbitrary: i rule: drawLine.induct)
  case (1 start endp rest seg segs remaining)
  show ?case
  proof (cases "remaining \<le> 0")
    case True
    with "1.prems" show ?thesis by simp
  next
    case pos: False
    show ?thesis
    proof (cases "remaining \<ge> seg")
      case True
      show ?thesis
      proof (cases i)
        case 0
        with pos True show ?thesis by (simp add: Let_def)
      next
        case (Suc k)
        with "1.prems" pos True have "k < length (drawLine (endp # rest) segs (remaining - seg))"
          by (simp add: Let_def)
        from "1.IH"(1) [OF pos refl True this] Suc pos True show ?thesis
          by (simp add: Let_def)
      qed
    next
      case False
      have nil: "drawLine (endp # rest) segs 0 = []"
        by (cases rest; cases segs) simp_all
      with "1.prems" pos False have "i = 0" by (simp add: Let_def)
      with pos False show ?thesis by (simp add: Let_def)
    qed
  qed
qed simp_all

lemma drawLine_all:
  "\<forall>s \<in> set (segmentList (a # rest)). 0 < s \<Longrightarrow>
     length (drawLine (a # rest) (segmentList (a # rest)) (sum_list (segmentList (a # rest)))) = length rest"
proof (induction rest arbitrary: a)
  case Nil
  then show ?case by simp
next
  case (Cons b rest)
  let ?d = "sqrt ((px b - px a) * (px b - px a) + (py b - py a) * (py b - py a))"
  have r0: "0 \<le> sum_list (segmentList (b # rest))" by (rule segmentList_sum_nonneg)
  from Cons.prems have d0: "0 < ?d" by simp
  from Cons.prems have "\<forall>s \<in> set (segmentList (b # rest)). 0 < s" by simp
  note ih = Cons.IH [OF this]
  have pos: "\<not> ?d + sum_list (segmentList (b # rest)) \<le> 0" using d0 r0 by linarith
  have ge: "?d \<le> ?d + sum_list (segmentList (b # rest))" using r0 by linarith
  have "drawLine (a # b # rest) (segmentList (a # b # rest)) (sum_list (segmentList (a # b # rest)))
      = \<lparr>strokeStyle = (if pvalue b \<ge> pvalue a then increaseColor else decreaseColor),
          moveToX = px a, moveToY = py a, lineToX = px b, lineToY = py b\<rparr>
        # drawLine (b # rest) (segmentList (b # rest)) (sum_list (segmentList (b # rest)))"
    using pos ge by (simp add: Let_def del: real_sqrt_gt_0_iff real_sqrt_le_0_iff)
  with ih show ?case by simp
qed

text \<open>
  C4. The stroke of segment \<open>i\<close> starts at point \<open>i\<close> and has the increase colour
  \<^verbatim>\<open>#16a34a\<close> when the value of point \<open>i + 1\<close> is greater than or equal to the value of
  point \<open>i\<close> (so also on a flat segment), and the decrease colour \<^verbatim>\<open>#dc2626\<close> when it
  is strictly less. There is at most one stroke per segment, and at progress 1 every
  segment of a path without zero-length segments is stroked.
\<close>

theorem segment_colors:
  "length (drawLine cps segs remaining) \<le> length cps - 1 \<and>
   (\<forall>i < length (drawLine cps segs remaining).
      strokeStyle (drawLine cps segs remaining ! i)
        = (if pvalue (cps ! Suc i) \<ge> pvalue (cps ! i) then ''#16a34a'' else ''#dc2626'') \<and>
      moveToX (drawLine cps segs remaining ! i) = px (cps ! i) \<and>
      moveToY (drawLine cps segs remaining ! i) = py (cps ! i)) \<and>
   ((\<forall>s \<in> set (segmentsOf cps). 0 < s) \<longrightarrow>
      length (drawLine cps (segmentsOf cps) (totalLengthOf cps * 1)) = length cps - 1)"
proof (intro conjI)
  show "length (drawLine cps segs remaining) \<le> length cps - 1"
    by (rule drawLine_length)
next
  show "\<forall>i < length (drawLine cps segs remaining).
      strokeStyle (drawLine cps segs remaining ! i)
        = (if pvalue (cps ! Suc i) \<ge> pvalue (cps ! i) then ''#16a34a'' else ''#dc2626'') \<and>
      moveToX (drawLine cps segs remaining ! i) = px (cps ! i) \<and>
      moveToY (drawLine cps segs remaining ! i) = py (cps ! i)"
    using drawLine_nth [of _ cps segs remaining]
    by (simp add: increaseColor_def decreaseColor_def)
next
  show "(\<forall>s \<in> set (segmentsOf cps). 0 < s) \<longrightarrow>
      length (drawLine cps (segmentsOf cps) (totalLengthOf cps * 1)) = length cps - 1"
  proof
    assume pos: "\<forall>s \<in> set (segmentsOf cps). 0 < s"
    show "length (drawLine cps (segmentsOf cps) (totalLengthOf cps * 1)) = length cps - 1"
    proof (cases cps)
      case Nil
      then show ?thesis by simp
    next
      case (Cons a rest)
      with pos drawLine_all [of a rest] show ?thesis
        by (simp add: segmentsOf_list totalLengthOf_sum)
    qed
  qed
qed

text \<open>A path that rises, stays flat and falls, with segments of length 5, 3 and 5.\<close>

definition plateau :: "calc list" where
  "plateau = [\<lparr>px = 0, py = 4, pvalue = 5, ptime = ''9:00 AM''\<rparr>,
              \<lparr>px = 3, py = 0, pvalue = 9, ptime = ''9:05 AM''\<rparr>,
              \<lparr>px = 6, py = 0, pvalue = 9, ptime = ''9:10 AM''\<rparr>,
              \<lparr>px = 9, py = 4, pvalue = 2, ptime = ''9:15 AM''\<rparr>]"

lemma sqrt_25: "sqrt 25 = 5"
  using real_sqrt_abs [of 5] by simp

lemma sqrt_9: "sqrt 9 = 3"
  using real_sqrt_abs [of 3] by simp

lemma drawLine_plateau:
  "drawLine plateau [5, 3, 5] 13 =
     [\<lparr>strokeStyle = ''#16a34a'', moveToX = 0, moveToY = 4, lineToX = 3, lineToY = 0\<rparr>,
      \<lparr>strokeStyle = ''#16a34a'', moveToX = 3, moveToY = 0, lineToX = 6, lineToY = 0\<rparr>,
      \<lparr>strokeStyle = ''#dc2626'', moveToX = 6, moveToY = 0, lineToX = 9, lineToY = 4\<rparr>]"
  by (simp add: plateau_def increaseColor_def decreaseColor_def)

theorem segment_colors_witness:
  "length (drawLine plateau [5, 3, 5] 13) = 3 \<and>
   strokeStyle (drawLine plateau [5, 3, 5] 13 ! 0) = ''#16a34a'' \<and>
   strokeStyle (drawLine plateau [5, 3, 5] 13 ! 1) = ''#16a34a'' \<and>
   strokeStyle (drawLine plateau [5, 3, 5] 13 ! 2) = ''#dc2626'' \<and>
   map pvalue plateau = [5, 9, 9, 2] \<and>
   segmentsOf plateau = [5, 3, 5] \<and>
   length (drawLine plateau (segmentsOf plateau) (totalLengthOf plateau * 1)) = 3"
proof -
  note T = segment_colors [of plateau "[5, 3, 5]" 13]
  have len: "length (drawLine plateau [5, 3, 5] 13) = 3"
    by (simp add: drawLine_plateau)
  from T have col: "\<And>i. i < length (drawLine plateau [5, 3, 5] 13) \<Longrightarrow>
      strokeStyle (drawLine plateau [5, 3, 5] 13 ! i)
        = (if pvalue (plateau ! Suc i) \<ge> pvalue (plateau ! i) then ''#16a34a'' else ''#dc2626'')"
    by blast
  have c0: "strokeStyle (drawLine plateau [5, 3, 5] 13 ! 0) = ''#16a34a''"
    using col [of 0] len by (simp add: plateau_def)
  have c1: "strokeStyle (drawLine plateau [5, 3, 5] 13 ! 1) = ''#16a34a''"
    using col [of 1] len by (simp add: plateau_def)
  have c2: "strokeStyle (drawLine plateau [5, 3, 5] 13 ! 2) = ''#dc2626''"
    using col [of 2] len by (simp add: plateau_def)
  have segs: "segmentsOf plateau = [5, 3, 5]"
    by (simp add: segmentsOf_def plateau_def sqrt_25 sqrt_9)
  have pos: "\<forall>s \<in> set (segmentsOf plateau). 0 < s" by (simp add: segs)
  from T pos have all: "length (drawLine plateau (segmentsOf plateau) (totalLengthOf plateau * 1)) = 3"
    by (simp add: plateau_def)
  have vals: "map pvalue plateau = [5, 9, 9, 2]" by (simp add: plateau_def)
  from len c0 c1 c2 vals segs all show ?thesis by blast
qed

section \<open>Progress and the frame loop (lines 302--303 and 592--596 of animate)\<close>

text \<open>
  \<^verbatim>\<open>const progress = Math.min((now - startTime) / animationDuration, 1);\<close> with
  \<^verbatim>\<open>animationDuration = duration * 1000\<close>. With a duration of 0 the quotient is not a real
  number: \<^verbatim>\<open>Math.min\<close> caps the positive infinity at 1, and the negative infinity and NaN
  stay.
\<close>

datatype jsnum = Finite real | NegInfinity | NaN

definition progress :: "real \<Rightarrow> real \<Rightarrow> real \<Rightarrow> jsnum" where
  "progress now startTime duration =
     (let animationDuration = duration * 1000;
          elapsed = now - startTime
      in if animationDuration \<noteq> 0 then Finite (min (elapsed / animationDuration) 1)
         else if elapsed > 0 then Finite 1
         else if elapsed < 0 then NegInfinity
         else NaN)"

text \<open>The progress as the specification writes it, clamped on both sides.\<close>

definition clampProgress :: "real \<Rightarrow> real \<Rightarrow> real \<Rightarrow> real" where
  "clampProgress now start duration = max 0 (min 1 ((now - start) / (duration * 1000)))"

text \<open>The comparison \<^verbatim>\<open><\<close> of JavaScript on these numbers: false whenever NaN takes part.\<close>

fun jsLess :: "jsnum \<Rightarrow> jsnum \<Rightarrow> bool" where
  "jsLess (Finite a) (Finite b) \<longleftrightarrow> a < b"
| "jsLess NegInfinity (Finite b) \<longleftrightarrow> True"
| "jsLess a b \<longleftrightarrow> False"

text \<open>
  What one recording schedules. \<^verbatim>\<open>animate(now)\<close> is called by the browser with the
  time of the frame; it draws the frame for its progress and then either requests the
  next frame (\<^verbatim>\<open>progress < 1\<close>) or sets the timer that stops the recorder,
  \<^verbatim>\<open>setTimeout(() => recorder.stop(), 500)\<close>. The frame loop is run on the list of the
  times that the browser passes to the successive calls; it ends with the list when the
  browser has not called again.
\<close>

datatype effect = DrawFrame jsnum | RequestAnimationFrame | SetTimeoutStop real

fun frameLoop :: "real \<Rightarrow> real \<Rightarrow> real list \<Rightarrow> effect list" where
  "frameLoop startTime duration [] = []"
| "frameLoop startTime duration (now # later) =
     (let p = progress now startTime duration
      in DrawFrame p #
         (if jsLess p (Finite 1) then RequestAnimationFrame # frameLoop startTime duration later
          else [SetTimeoutStop 500]))"

fun frames :: "effect list \<Rightarrow> jsnum list" where
  "frames [] = []"
| "frames (DrawFrame p # es) = p # frames es"
| "frames (e # es) = frames es"

text \<open>
  C5, as the specification states it, fails: the progress of a tick whose time is earlier
  than the start is negative, where the clamp of the specification gives 0.
\<close>

theorem progress_negative_counterexample:
  "progress 0 1000 1 = Finite (- 1) \<and> clampProgress 0 1000 1 = 0"
  by (simp add: progress_def clampProgress_def)

text \<open>
  C5, amended. For a positive duration the progress of a tick is the elapsed-time ratio
  capped at 1 from above only: it never exceeds 1; for a time at or after the start it is
  the ratio clamped to the interval from 0 to 1; for a time before the start it is the
  ratio itself, which is negative.
\<close>

theorem progress_upper_clamp:
  assumes "0 < duration"
  shows "progress now startTime duration = Finite (min ((now - startTime) / (duration * 1000)) 1) \<and>
         min ((now - startTime) / (duration * 1000)) 1 \<le> 1 \<and>
         (startTime \<le> now \<longrightarrow>
            progress now startTime duration = Finite (clampProgress now startTime duration) \<and>
            0 \<le> clampProgress now startTime duration \<and> clampProgress now startTime duration \<le> 1) \<and>
         (now < startTime \<longrightarrow>
            progress now startTime duration = Finite ((now - startTime) / (duration * 1000)) \<and>
            (now - startTime) / (duration * 1000) < 0)"
proof -
  let ?r = "(now - startTime) / (duration * 1000)"
  have p: "progress now startTime duration = Finite (min ?r 1)"
    using assms by (simp add: progress_def Let_def)
  have a: "startTime \<le> now \<longrightarrow> 0 \<le> ?r" using assms by simp
  have b: "now < startTime \<longrightarrow> ?r < 0" using assms by (simp add: divide_neg_pos)
  from p a b show ?thesis
    by (auto simp: clampProgress_def min_def max_def)
qed

theorem progress_upper_clamp_witness:
  "(0::real) < 5 \<and> progress 2500 0 5 = Finite (1 / 2) \<and> clampProgress 2500 0 5 = 1 / 2 \<and>
   progress 9000 0 5 = Finite 1 \<and> progress 0 1000 5 = Finite (- (1 / 5)) \<and> (0::real) < 1000"
proof -
  have d: "(0::real) < 5" by simp
  from progress_upper_clamp [OF d, of 2500 0] progress_upper_clamp [OF d, of 9000 0]
       progress_upper_clamp [OF d, of 0 1000]
  show ?thesis by (simp add: clampProgress_def)
qed


lemma progress_finite:
  "0 < d \<Longrightarrow> progress n s d = Finite (min ((n - s) / (d * 1000)) 1)"
  by (simp add: progress_def Let_def)

lemma progress_increases:
  assumes "0 < d" "a < b" "jsLess (progress a s d) (Finite 1)"
  shows "jsLess (progress a s d) (progress b s d)"
proof -
  have "(a - s) / (d * 1000) < (b - s) / (d * 1000)"
    using assms(1,2) by (simp add: divide_strict_right_mono)
  with assms(3) show ?thesis
    using assms(1) by (simp add: progress_finite min_def split: if_splits)
qed

lemma frames_frameLoop_mem:
  "p \<in> set (frames (frameLoop s d nows)) \<Longrightarrow> \<exists>n \<in> set nows. p = progress n s d"
  by (induction nows) (auto simp: Let_def split: if_splits)

lemma frames_sorted:
  "0 < d \<Longrightarrow> sorted_wrt (<) nows \<Longrightarrow> sorted_wrt jsLess (frames (frameLoop s d nows))"
proof (induction nows)
  case Nil
  then show ?case by simp
next
  case (Cons now later)
  show ?case
  proof (cases "jsLess (progress now s d) (Finite 1)")
    case True
    have "jsLess (progress now s d) q" if "q \<in> set (frames (frameLoop s d later))" for q
    proof -
      from frames_frameLoop_mem [OF that] obtain n where n: "n \<in> set later" "q = progress n s d"
        by blast
      with Cons.prems(2) have "now < n" by simp
      from progress_increases [OF Cons.prems(1) this True] n(2) show ?thesis by simp
    qed
    with True Cons show ?thesis by (simp add: Let_def)
  next
    case False
    then show ?thesis by (simp add: Let_def)
  qed
qed

lemma stop_after_final_frame:
  assumes "0 < d"
  shows "SetTimeoutStop t \<in> set (frameLoop s d nows) \<Longrightarrow>
     t = 500 \<and>
     (\<exists>pre. frameLoop s d nows = pre @ [DrawFrame (Finite 1), SetTimeoutStop 500] \<and>
        (\<forall>e \<in> set pre. (\<exists>p. e = DrawFrame p \<and> jsLess p (Finite 1)) \<or> e = RequestAnimationFrame))"
proof (induction nows)
  case Nil
  then show ?case by simp
next
  case (Cons now later)
  let ?p = "progress now s d"
  show ?case
  proof (cases "jsLess ?p (Finite 1)")
    case True
    with Cons.prems have "SetTimeoutStop t \<in> set (frameLoop s d later)" by (simp add: Let_def)
    from Cons.IH [OF this] obtain pre where t: "t = 500"
      and pre: "frameLoop s d later = pre @ [DrawFrame (Finite 1), SetTimeoutStop 500]"
        "\<forall>e \<in> set pre. (\<exists>p. e = DrawFrame p \<and> jsLess p (Finite 1)) \<or> e = RequestAnimationFrame"
      by blast
    let ?pre = "DrawFrame ?p # RequestAnimationFrame # pre"
    have "frameLoop s d (now # later) = ?pre @ [DrawFrame (Finite 1), SetTimeoutStop 500]"
      using True pre(1) by (simp add: Let_def)
    moreover have "\<forall>e \<in> set ?pre. (\<exists>p. e = DrawFrame p \<and> jsLess p (Finite 1)) \<or> e = RequestAnimationFrame"
      using True pre(2) by simp
    ultimately show ?thesis using t by blast
  next
    case False
    then have one: "?p = Finite 1"
      using assms by (simp add: progress_finite min_def split: if_splits)
    with False have "frameLoop s d (now # later) = [] @ [DrawFrame (Finite 1), SetTimeoutStop 500]"
      by (simp add: Let_def)
    moreover from this Cons.prems have "t = 500" by simp
    ultimately show ?thesis by (metis empty_iff list.set(1))
  qed
qed

lemma stop_is_scheduled:
  assumes "0 < d"
  shows "\<exists>n \<in> set nows. s + d * 1000 \<le> n \<Longrightarrow> SetTimeoutStop 500 \<in> set (frameLoop s d nows)"
proof (induction nows)
  case Nil
  then show ?case by simp
next
  case (Cons now later)
  show ?case
  proof (cases "jsLess (progress now s d) (Finite 1)")
    case True
    then have "(now - s) / (d * 1000) < 1"
      using assms by (simp add: progress_finite min_def split: if_splits)
    then have "now < s + d * 1000" using assms by (simp add: field_simps)
    with Cons.prems have "\<exists>n \<in> set later. s + d * 1000 \<le> n" by auto
    from Cons.IH [OF this] True show ?thesis by (simp add: Let_def)
  next
    case False
    then show ?thesis by (simp add: Let_def)
  qed
qed

text \<open>
  C6. For a positive duration and strictly increasing frame times, the frames of a
  recording are drawn with strictly increasing progress; the timer that stops the
  recorder is set with a delay of 500, as the last effect, directly after the frame with
  progress 1, and every frame before it has a progress below 1 and is followed by the
  request for the next frame. When a frame time reaches the end of the duration the
  timer is set.
\<close>

theorem frames_in_order_and_stop_last:
  assumes "0 < duration" and "sorted_wrt (<) nows"
  shows "sorted_wrt jsLess (frames (frameLoop startTime duration nows)) \<and>
         (\<forall>t. SetTimeoutStop t \<in> set (frameLoop startTime duration nows) \<longrightarrow>
            t = 500 \<and>
            (\<exists>pre. frameLoop startTime duration nows
                     = pre @ [DrawFrame (Finite 1), SetTimeoutStop 500] \<and>
               (\<forall>e \<in> set pre. (\<exists>p. e = DrawFrame p \<and> jsLess p (Finite 1))
                                \<or> e = RequestAnimationFrame))) \<and>
         ((\<exists>n \<in> set nows. startTime + duration * 1000 \<le> n) \<longrightarrow>
            SetTimeoutStop 500 \<in> set (frameLoop startTime duration nows))"
  using frames_sorted [OF assms] stop_after_final_frame [OF assms(1)] stop_is_scheduled [OF assms(1)]
  by blast

theorem frames_in_order_and_stop_last_witness:
  "(0::real) < 3 \<and> sorted_wrt (<) [1000, 2500, 4000, 4016 :: real] \<and>
   frameLoop 1000 3 [1000, 2500, 4000, 4016]
     = [DrawFrame (Finite 0), RequestAnimationFrame, DrawFrame (Finite (1 / 2)), RequestAnimationFrame,
        DrawFrame (Finite 1), SetTimeoutStop 500] \<and>
   sorted_wrt jsLess (frames (frameLoop 1000 3 [1000, 2500, 4000, 4016])) \<and>
   SetTimeoutStop 500 \<in> set (frameLoop 1000 3 [1000, 2500, 4000, 4016])"
proof -
  have d: "(0::real) < 3" by simp
  have inc: "sorted_wrt (<) [1000, 2500, 4000, 4016 :: real]" by simp
  note T = frames_in_order_and_stop_last [OF d inc, of 1000]
  have ev: "frameLoop 1000 3 [1000, 2500, 4000, 4016]
     = [DrawFrame (Finite 0), RequestAnimationFrame, DrawFrame (Finite (1 / 2)), RequestAnimationFrame,
        DrawFrame (Finite 1), SetTimeoutStop 500]"
    by (simp add: progress_def Let_def)
  have reach: "\<exists>n \<in> set [1000, 2500, 4000, 4016 :: real]. 1000 + 3 * 1000 \<le> n" by simp
  from T reach have stop: "SetTimeoutStop 500 \<in> set (frameLoop 1000 3 [1000, 2500, 4000, 4016])"
    by blast
  from T have ord: "sorted_wrt jsLess (frames (frameLoop 1000 3 [1000, 2500, 4000, 4016]))"
    by blast
  from d inc ev ord stop show ?thesis by blast
qed

section \<open>The layers of a frame and the watermark\<close>

text \<open>
  \<^verbatim>\<open>interface WatermarkConfig\<close>, with the prefix \<open>wm_\<close> on its field names, and its six
  positions. \<^verbatim>\<open>position.startsWith("top")\<close> and \<^verbatim>\<open>position.startsWith("bottom")\<close> are
  functions on the positions.
\<close>

datatype position = TopLeft | TopCenter | TopRight | BottomLeft | BottomCenter | BottomRight

datatype wmtype = ImageType | TextType

record WatermarkConfig =
  wm_enabled :: bool
  wm_type :: wmtype
  wm_imageUrl :: "string option"
  wm_text :: "string option"
  wm_position :: position
  wm_sizeRatio :: real
  wm_opacity :: real
  wm_margin :: real

fun startsWithTop :: "position \<Rightarrow> bool" where
  "startsWithTop TopLeft = True"
| "startsWithTop TopCenter = True"
| "startsWithTop TopRight = True"
| "startsWithTop p = False"

fun startsWithBottom :: "position \<Rightarrow> bool" where
  "startsWithBottom BottomLeft = True"
| "startsWithBottom BottomCenter = True"
| "startsWithBottom BottomRight = True"
| "startsWithBottom p = False"

text \<open>
  \<^verbatim>\<open>if (title) ...\<close>: an optional text counts when it is present and not empty.
\<close>

definition whenText :: "string option \<Rightarrow> (string \<Rightarrow> 'a list) \<Rightarrow> 'a list" where
  "whenText s f = (case s of None \<Rightarrow> [] | Some t \<Rightarrow> if t = [] then [] else f t)"

text \<open>
  A frame is the list of its drawing operations in the order in which \<^verbatim>\<open>animate\<close>
  issues them; a later operation paints over an earlier one. The path, the dots, the
  labels and the airplane are one operation each here. \<open>imageRef\<close> says whether
  \<^verbatim>\<open>watermarkImageRef.current\<close> holds an image.

  \<^verbatim>\<open>drawWatermark()\<close> (lines 599--674) draws the image of an image watermark and the
  text of a text watermark. The block after the airplane (lines 536--590) draws the image
  of an image watermark itself, whatever its position, and then calls
  \<^verbatim>\<open>drawWatermark()\<close> for a bottom position.
\<close>

datatype drawOp =
  ClearRect | FillBackground
  | WatermarkImage | WatermarkText string
  | TitleText string | DescriptionText string
  | PathLine | Dots | Labels | Airplane

definition imageWatermark :: "WatermarkConfig \<Rightarrow> bool \<Rightarrow> drawOp list" where
  "imageWatermark w imageRef = (if wm_type w = ImageType \<and> imageRef then [WatermarkImage] else [])"

definition textWatermark :: "WatermarkConfig \<Rightarrow> drawOp list" where
  "textWatermark w =
     (if wm_type w = TextType then whenText (wm_text w) (\<lambda>t. [WatermarkText t]) else [])"

definition drawWatermark :: "WatermarkConfig option \<Rightarrow> bool \<Rightarrow> drawOp list" where
  "drawWatermark watermark imageRef =
     (case watermark of
        None \<Rightarrow> []
      | Some w \<Rightarrow> if \<not> wm_enabled w then [] else imageWatermark w imageRef @ textWatermark w)"

definition animateDraw :: "WatermarkConfig option \<Rightarrow> bool \<Rightarrow> string option \<Rightarrow> string option \<Rightarrow> drawOp list" where
  "animateDraw watermark imageRef title description =
     [ClearRect, FillBackground]
     @ (case watermark of
          None \<Rightarrow> []
        | Some w \<Rightarrow> if wm_enabled w \<and> startsWithTop (wm_position w)
                    then drawWatermark watermark imageRef else [])
     @ whenText title (\<lambda>t. [TitleText t])
     @ whenText description (\<lambda>d. [DescriptionText d])
     @ [PathLine, Dots, Labels, Airplane]
     @ (case watermark of
          None \<Rightarrow> []
        | Some w \<Rightarrow> if wm_enabled w
                    then imageWatermark w imageRef
                         @ (if wm_enabled w \<and> startsWithBottom (wm_position w)
                            then drawWatermark watermark imageRef else [])
                    else [])"

text \<open>An enabled image watermark at the top left, with its image loaded.\<close>

definition logoTopLeft :: WatermarkConfig where
  "logoTopLeft = \<lparr>wm_enabled = True, wm_type = ImageType, wm_imageUrl = Some ''logo.png'',
                   wm_text = None, wm_position = TopLeft, wm_sizeRatio = 0.2, wm_opacity = 0.5,
                   wm_margin = 40\<rparr>"

text \<open>
  C7 says that a top-anchored watermark is drawn as the first layer and never as the
  final one. The frame of the watermark \<open>logoTopLeft\<close> draws the watermark image as
  the first layer and once more as the last operation, over the airplane.
\<close>

theorem top_image_watermark_drawn_last:
  "animateDraw (Some logoTopLeft) True None None
     = [ClearRect, FillBackground, WatermarkImage, PathLine, Dots, Labels, Airplane, WatermarkImage]"
  by (simp add: animateDraw_def drawWatermark_def imageWatermark_def textWatermark_def
        logoTopLeft_def whenText_def)

text \<open>
  The same block draws the image of a bottom-anchored image watermark twice in the final
  layer. A text watermark is drawn once, in the layer of its position.
\<close>

lemma bottom_image_watermark_drawn_twice:
  "animateDraw (Some (logoTopLeft\<lparr>wm_position := BottomRight\<rparr>)) True None None
     = [ClearRect, FillBackground, PathLine, Dots, Labels, Airplane, WatermarkImage, WatermarkImage]"
  by (simp add: animateDraw_def drawWatermark_def imageWatermark_def textWatermark_def
        logoTopLeft_def whenText_def)

lemma text_watermark_layers:
  assumes "wm_enabled w" "wm_type w = TextType" "wm_text w = Some t" "t \<noteq> []"
  shows "animateDraw (Some w) imageRef None None =
           (if startsWithTop (wm_position w)
            then [ClearRect, FillBackground, WatermarkText t, PathLine, Dots, Labels, Airplane]
            else [ClearRect, FillBackground, PathLine, Dots, Labels, Airplane, WatermarkText t])"
  using assms
  by (cases "wm_position w")
     (simp_all add: animateDraw_def drawWatermark_def imageWatermark_def textWatermark_def whenText_def)

section \<open>File names (generateFileName, lines 681--706)\<close>

text \<open>
  \<^verbatim>\<open>new Date()\<close> is read through six getters; the clock is the record of what they
  return. The time stamp is the year, then month + 1, day, hours, minutes and seconds,
  each of these five padded to two digits with \<^verbatim>\<open>padStart(2, "0")\<close>.
\<close>

record clock =
  getFullYear :: nat
  getMonth :: nat
  getDate :: nat
  getHours :: nat
  getMinutes :: nat
  getSeconds :: nat

definition timestamp :: "clock \<Rightarrow> string" where
  "timestamp now =
     showNat (getFullYear now) @ ''-'' @ padStart2 (showNat (getMonth now + 1)) @ ''-'' @
     padStart2 (showNat (getDate now)) @ ''_'' @ padStart2 (showNat (getHours now)) @ ''-'' @
     padStart2 (showNat (getMinutes now)) @ ''-'' @ padStart2 (showNat (getSeconds now))"

text \<open>
  The title is a text of characters with codes below 256. \<^verbatim>\<open>toLowerCase\<close> maps
  \<open>A\<close>--\<open>Z\<close> to \<open>a\<close>--\<open>z\<close>; the other characters that it changes in this range are
  outside \<open>a\<close>--\<open>z\<close> and \<open>0\<close>--\<open>9\<close> before and after, so that the replacement that
  follows turns them into a hyphen either way, and the model leaves them as they are.
\<close>

definition upperCase :: string where
  "upperCase = ''ABCDEFGHIJKLMNOPQRSTUVWXYZ''"

definition lowerCase :: string where
  "lowerCase = ''abcdefghijklmnopqrstuvwxyz''"

definition digits :: string where
  "digits = ''0123456789''"

definition toLowerCase :: "char \<Rightarrow> char" where
  "toLowerCase c = (case map_of (zip upperCase lowerCase) c of Some l \<Rightarrow> l | None \<Rightarrow> c)"

definition isAlnum :: "char \<Rightarrow> bool" where
  "isAlnum c \<longleftrightarrow> c \<in> set (lowerCase @ upperCase @ digits)"

definition isHyphen :: "char \<Rightarrow> bool" where
  "isHyphen c \<longleftrightarrow> c = CHR ''-''"

text \<open>
  \<^verbatim>\<open>.replace(/[^a-z0-9]+/gi, "-")\<close>: from left to right, every longest run of
  characters that are not letters or digits is replaced by one hyphen.
  \<^verbatim>\<open>.replace(/^-+|-+$/g, "")\<close> removes the hyphens at the start and at the end.
\<close>

function replaceRuns :: "string \<Rightarrow> string" where
  "replaceRuns [] = []"
| "replaceRuns (c # cs) =
     (if isAlnum c then c # replaceRuns cs
      else CHR ''-'' # replaceRuns (dropWhile (\<lambda>d. \<not> isAlnum d) cs))"
  by pat_completeness auto
termination
  by (relation "measure length") (simp_all add: le_imp_less_Suc length_dropWhile_le)

definition trimHyphens :: "string \<Rightarrow> string" where
  "trimHyphens s = rev (dropWhile isHyphen (rev (dropWhile isHyphen s)))"

definition safeTitle :: "string option \<Rightarrow> string" where
  "safeTitle title =
     (case title of
        None \<Rightarrow> ''tradeflight''
      | Some t \<Rightarrow> if t = [] then ''tradeflight''
                  else trimHyphens (replaceRuns (map toLowerCase t)))"

definition generateFileName :: "clock \<Rightarrow> string option \<Rightarrow> string \<Rightarrow> string" where
  "generateFileName now title ext = safeTitle title @ ''-'' @ timestamp now @ ''.'' @ ext"

declare replaceRuns.simps [simp del]

fun adjacentHyphens :: "string \<Rightarrow> bool" where
  "adjacentHyphens (a # b # rest) \<longleftrightarrow> (isHyphen a \<and> isHyphen b) \<or> adjacentHyphens (b # rest)"
| "adjacentHyphens [a] \<longleftrightarrow> False"
| "adjacentHyphens [] \<longleftrightarrow> False"

lemma hyphen_not_alnum: "isHyphen c \<Longrightarrow> \<not> isAlnum c"
  by (simp add: isHyphen_def isAlnum_def lowerCase_def upperCase_def digits_def)

lemma filter_dropWhile_other:
  "(\<And>x. Q x \<Longrightarrow> \<not> P x) \<Longrightarrow> filter P (dropWhile Q xs) = filter P xs"
  by (induction xs) auto

lemma replaceRuns_filter: "filter isAlnum (replaceRuns s) = filter isAlnum s"
proof (induction s rule: replaceRuns.induct)
  case 1
  then show ?case by (simp add: replaceRuns.simps)
next
  case (2 c cs)
  show ?case
  proof (cases "isAlnum c")
    case True
    with 2 show ?thesis by (simp add: replaceRuns.simps)
  next
    case False
    have h: "\<not> isAlnum CHR ''-''" by (rule hyphen_not_alnum) (simp add: isHyphen_def)
    from 2(2) [OF False] False h show ?thesis
      by (simp add: replaceRuns.simps filter_dropWhile_other)
  qed
qed

lemma trimHyphens_filter: "filter isAlnum (trimHyphens s) = filter isAlnum s"
proof -
  have "filter isAlnum (trimHyphens s) = rev (filter isAlnum (dropWhile isHyphen (rev (dropWhile isHyphen s))))"
    by (simp add: trimHyphens_def rev_filter)
  also have "\<dots> = rev (filter isAlnum (rev (dropWhile isHyphen s)))"
    by (simp add: filter_dropWhile_other hyphen_not_alnum)
  also have "\<dots> = filter isAlnum (dropWhile isHyphen s)"
    by (simp add: rev_filter)
  also have "\<dots> = filter isAlnum s"
    by (simp add: filter_dropWhile_other hyphen_not_alnum)
  finally show ?thesis .
qed

lemma replaceRuns_set:
  "x \<in> set (replaceRuns s) \<Longrightarrow> x = CHR ''-'' \<or> (x \<in> set s \<and> isAlnum x)"
proof (induction s rule: replaceRuns.induct)
  case 1
  then show ?case by (simp add: replaceRuns.simps)
next
  case (2 c cs)
  show ?case
  proof (cases "isAlnum c")
    case True
    with 2 show ?thesis by (auto simp: replaceRuns.simps)
  next
    case False
    with 2(3) have "x = CHR ''-'' \<or> x \<in> set (replaceRuns (dropWhile (\<lambda>d. \<not> isAlnum d) cs))"
      by (simp add: replaceRuns.simps)
    then show ?thesis
    proof
      assume "x = CHR ''-''"
      then show ?thesis by simp
    next
      assume "x \<in> set (replaceRuns (dropWhile (\<lambda>d. \<not> isAlnum d) cs))"
      from 2(2) [OF False this] show ?thesis by (auto dest: set_dropWhileD)
    qed
  qed
qed

lemma trimHyphens_set: "x \<in> set (trimHyphens s) \<Longrightarrow> x \<in> set s"
  by (auto simp: trimHyphens_def dest!: set_dropWhileD)

lemma toLowerCase_upper: "c \<in> set upperCase \<Longrightarrow> toLowerCase c \<in> set lowerCase"
  by (auto simp: toLowerCase_def upperCase_def lowerCase_def)

lemma toLowerCase_other: "c \<notin> set upperCase \<Longrightarrow> toLowerCase c = c"
proof -
  assume "c \<notin> set upperCase"
  then have "map_of (zip upperCase lowerCase) c = None"
    by (simp add: map_of_eq_None_iff upperCase_def lowerCase_def)
  then show ?thesis by (simp add: toLowerCase_def)
qed

lemma toLowerCase_alnum:
  "isAlnum (toLowerCase c) \<Longrightarrow> toLowerCase c \<in> set (lowerCase @ digits)"
proof (cases "c \<in> set upperCase")
  case True
  then show ?thesis using toLowerCase_upper by simp
next
  case False
  assume "isAlnum (toLowerCase c)"
  with False toLowerCase_other [OF False] show ?thesis by (auto simp: isAlnum_def)
qed

lemma toLowerCase_keeps_alnum: "isAlnum (toLowerCase c) \<longleftrightarrow> isAlnum c"
proof (cases "c \<in> set upperCase")
  case True
  from toLowerCase_upper [OF this] True show ?thesis by (simp add: isAlnum_def)
next
  case False
  then show ?thesis by (simp add: toLowerCase_other)
qed

lemma trimHyphens_ends:
  "trimHyphens s \<noteq> [] \<Longrightarrow> \<not> isHyphen (hd (trimHyphens s)) \<and> \<not> isHyphen (last (trimHyphens s))"
proof -
  let ?ys = "dropWhile isHyphen s"
  let ?zs = "dropWhile isHyphen (rev ?ys)"
  assume ne: "trimHyphens s \<noteq> []"
  then have zne: "?zs \<noteq> []" by (simp add: trimHyphens_def)
  then have "\<not> isHyphen (hd ?zs)" by (rule hd_dropWhile)
  then have l: "\<not> isHyphen (last (trimHyphens s))"
    using zne by (simp add: trimHyphens_def last_rev)
  have split: "rev ?ys = takeWhile isHyphen (rev ?ys) @ ?zs" by simp
  then have "?ys = rev ?zs @ rev (takeWhile isHyphen (rev ?ys))"
    by (metis rev_append rev_rev_ident)
  then have ys: "?ys = trimHyphens s @ rev (takeWhile isHyphen (rev ?ys))"
    by (simp add: trimHyphens_def)
  have yne: "?ys \<noteq> []"
  proof
    assume e: "?ys = []"
    have "trimHyphens s = rev (dropWhile isHyphen (rev ?ys))" by (simp only: trimHyphens_def)
    also have "\<dots> = []" unfolding e by simp
    finally show False using ne by simp
  qed
  then have "\<not> isHyphen (hd ?ys)" by (rule hd_dropWhile)
  moreover from ys ne have "hd ?ys = hd (trimHyphens s)" by (metis hd_append2)
  ultimately show ?thesis using l by simp
qed

lemma adjacentHyphens_append:
  "adjacentHyphens xs \<or> adjacentHyphens ys \<Longrightarrow> adjacentHyphens (xs @ ys)"
proof (induction xs rule: adjacentHyphens.induct)
  case (1 a b rest)
  then show ?case by auto
next
  case (2 a)
  then show ?case by (cases ys) auto
next
  case 3
  then show ?case by simp
qed

lemma adjacentHyphens_dropWhile:
  "adjacentHyphens (dropWhile P xs) \<Longrightarrow> adjacentHyphens xs"
  using adjacentHyphens_append [of "takeWhile P xs" "dropWhile P xs"] by simp

lemma adjacentHyphens_rev: "adjacentHyphens (rev xs) \<longleftrightarrow> adjacentHyphens xs"
proof -
  have snoc: "adjacentHyphens (ys @ [b, a]) \<longleftrightarrow> (isHyphen b \<and> isHyphen a) \<or> adjacentHyphens (ys @ [b])" for ys a b
    by (induction ys rule: adjacentHyphens.induct) auto
  show ?thesis
  proof (induction xs rule: adjacentHyphens.induct)
    case (1 a b rest)
    have "adjacentHyphens (rev (a # b # rest)) = adjacentHyphens (rev rest @ [b, a])" by simp
    also have "\<dots> \<longleftrightarrow> (isHyphen b \<and> isHyphen a) \<or> adjacentHyphens (rev rest @ [b])" by (rule snoc)
    also have "\<dots> \<longleftrightarrow> (isHyphen a \<and> isHyphen b) \<or> adjacentHyphens (b # rest)"
      using 1 by auto
    finally show ?case by simp
  qed simp_all
qed

lemma trimHyphens_adjacent: "adjacentHyphens (trimHyphens s) \<Longrightarrow> adjacentHyphens s"
  by (auto simp: trimHyphens_def adjacentHyphens_rev dest!: adjacentHyphens_dropWhile)

lemma replaceRuns_head:
  "replaceRuns s = x # rest \<Longrightarrow> isHyphen x \<Longrightarrow> s \<noteq> [] \<and> \<not> isAlnum (hd s)"
  by (cases s) (auto simp: replaceRuns.simps hyphen_not_alnum split: if_splits)

lemma replaceRuns_adjacent: "\<not> adjacentHyphens (replaceRuns s)"
proof (induction s rule: replaceRuns.induct)
  case 1
  then show ?case by (simp add: replaceRuns.simps)
next
  case (2 c cs)
  show ?case
  proof (cases "isAlnum c")
    case True
    have nh: "\<not> isHyphen c" using True hyphen_not_alnum by blast
    from 2(1) [OF True] nh True show ?thesis
      by (cases "replaceRuns cs") (simp_all add: replaceRuns.simps)
  next
    case False
    let ?ds = "dropWhile (\<lambda>d. \<not> isAlnum d) cs"
    have ih: "\<not> adjacentHyphens (replaceRuns ?ds)" by (rule 2(2) [OF False])
    have eq: "replaceRuns (c # cs) = CHR ''-'' # replaceRuns ?ds"
      using False by (simp add: replaceRuns.simps)
    show ?thesis
    proof (cases "replaceRuns ?ds")
      case Nil
      with eq show ?thesis by simp
    next
      case (Cons x rest)
      have "\<not> isHyphen x"
      proof
        assume "isHyphen x"
        from replaceRuns_head [OF Cons this] have "?ds \<noteq> []" "\<not> isAlnum (hd ?ds)" by simp_all
        moreover from \<open>?ds \<noteq> []\<close> have "\<not> \<not> isAlnum (hd ?ds)" by (rule hd_dropWhile)
        ultimately show False by simp
      qed
      with ih eq Cons show ?thesis by simp
    qed
  qed
qed

subsection \<open>The sanitized title as the specification describes it\<close>

text \<open>
  The words of a text are its longest runs of letters and digits, in order;
  \<open>joinHyphen\<close> writes them with one hyphen between neighbours. \<open>trimEnd\<close> and
  \<open>leadingSep\<close> serve the proof that the two replacements of the code produce the
  joined words.
\<close>

function wordsOf :: "string \<Rightarrow> string list" where
  "wordsOf s =
     (let r = dropWhile (\<lambda>c. \<not> isAlnum c) s
      in if r = [] then [] else takeWhile isAlnum r # wordsOf (dropWhile isAlnum r))"
  by pat_completeness auto
termination
proof (relation "measure length")
  show "wf (measure length)" by simp
next
  fix s r :: string
  assume r: "r = dropWhile (\<lambda>c. \<not> isAlnum c) s" and ne: "r \<noteq> []"
  from ne have "isAlnum (hd r)" using hd_dropWhile [of "\<lambda>c. \<not> isAlnum c" s] r by simp
  with ne have "length (dropWhile isAlnum r) < length r"
    by (cases r) (simp_all add: le_imp_less_Suc length_dropWhile_le)
  also have "length r \<le> length s" using r by (simp add: length_dropWhile_le)
  finally show "(dropWhile isAlnum r, s) \<in> measure length" by simp
qed

declare wordsOf.simps [simp del]

fun joinHyphen :: "string list \<Rightarrow> string" where
  "joinHyphen [] = []"
| "joinHyphen [w] = w"
| "joinHyphen (w # ws) = w @ ''-'' @ joinHyphen ws"

definition trimEnd :: "string \<Rightarrow> string" where
  "trimEnd s = rev (dropWhile isHyphen (rev s))"

lemma wordsOf_Nil: "wordsOf [] = []"
  by (simp add: wordsOf.simps)

lemma wordsOf_sep: "\<not> isAlnum c \<Longrightarrow> wordsOf (c # cs) = wordsOf cs"
  by (subst (1 2) wordsOf.simps) simp

lemma wordsOf_dropWhile: "wordsOf (dropWhile (\<lambda>c. \<not> isAlnum c) s) = wordsOf s"
  by (induction s) (simp_all add: wordsOf_sep)

lemma wordsOf_alnum:
  "isAlnum c \<Longrightarrow> wordsOf (c # cs) = (c # takeWhile isAlnum cs) # wordsOf (dropWhile isAlnum cs)"
  by (subst wordsOf.simps) simp

lemma wordsOf_alnum_then_sep:
  "isAlnum c \<Longrightarrow> cs = [] \<or> \<not> isAlnum (hd cs) \<Longrightarrow> wordsOf (c # cs) = [c] # wordsOf cs"
  by (cases cs) (auto simp: wordsOf_alnum)

lemma wordsOf_alnum_then_alnum:
  "isAlnum c \<Longrightarrow> cs \<noteq> [] \<Longrightarrow> isAlnum (hd cs) \<Longrightarrow>
     \<exists>w ws. wordsOf cs = w # ws \<and> wordsOf (c # cs) = (c # w) # ws"
  by (cases cs) (auto simp: wordsOf_alnum)

lemma wordsOf_nonempty_words: "w \<in> set (wordsOf s) \<Longrightarrow> w \<noteq> []"
proof (induction s rule: wordsOf.induct)
  case (1 s)
  let ?r = "dropWhile (\<lambda>c. \<not> isAlnum c) s"
  show ?case
  proof (cases "?r = []")
    case True
    with 1(2) show ?thesis by (subst (asm) wordsOf.simps) simp
  next
    case False
    then have "isAlnum (hd ?r)" using hd_dropWhile [of "\<lambda>c. \<not> isAlnum c" s] by simp
    with False have tw: "takeWhile isAlnum ?r \<noteq> []" by (cases ?r) simp_all
    have eq: "wordsOf s = takeWhile isAlnum ?r # wordsOf (dropWhile isAlnum ?r)"
      using False by (subst wordsOf.simps) (simp add: Let_def)
    from 1(2) have "w = takeWhile isAlnum ?r \<or> w \<in> set (wordsOf (dropWhile isAlnum ?r))"
      unfolding eq by simp
    with tw 1(1) [OF refl False] show ?thesis by auto
  qed
qed

lemma joinHyphen_Cons: "joinHyphen (w # ws) = (if ws = [] then w else w @ ''-'' @ joinHyphen ws)"
  by (cases ws) simp_all

lemma joinHyphen_empty: "ws \<noteq> [] \<Longrightarrow> \<forall>w \<in> set ws. w \<noteq> [] \<Longrightarrow> joinHyphen ws \<noteq> []"
  by (cases ws) (simp_all add: joinHyphen_Cons)

lemma trimEnd_Cons:
  "trimEnd (x # xs) = (if isHyphen x \<and> trimEnd xs = [] then [] else x # trimEnd xs)"
  by (auto simp: trimEnd_def dropWhile_append)

lemma trimHyphens_trimEnd: "trimHyphens s = trimEnd (dropWhile isHyphen s)"
  by (simp add: trimHyphens_def trimEnd_def)


definition leadingSep :: "string \<Rightarrow> bool" where
  "leadingSep s \<longleftrightarrow> s \<noteq> [] \<and> \<not> isAlnum (hd s)"

lemma dropWhile_sep_start:
  "dropWhile (\<lambda>d. \<not> isAlnum d) cs = [] \<or> isAlnum (hd (dropWhile (\<lambda>d. \<not> isAlnum d) cs))"
  using hd_dropWhile [of "\<lambda>d. \<not> isAlnum d" cs] by blast

lemma trimEnd_replaceRuns:
  "trimEnd (replaceRuns s) =
     (if leadingSep s \<and> wordsOf s \<noteq> [] then CHR ''-'' # joinHyphen (wordsOf s)
      else joinHyphen (wordsOf s))"
proof (induction s rule: replaceRuns.induct)
  case 1
  then show ?case by (simp add: replaceRuns.simps trimEnd_def wordsOf_Nil)
next
  case (2 c cs)
  show ?case
  proof (cases "isAlnum c")
    case True
    have nh: "\<not> isHyphen c" using True hyphen_not_alnum by blast
    have g: "trimEnd (replaceRuns (c # cs)) = c # trimEnd (replaceRuns cs)"
      using True nh by (simp add: replaceRuns.simps trimEnd_Cons)
    have nl: "\<not> leadingSep (c # cs)" using True by (simp add: leadingSep_def)
    note ih = 2(1) [OF True]
    show ?thesis
    proof (cases "cs \<noteq> [] \<and> isAlnum (hd cs)")
      case al: True
      from wordsOf_alnum_then_alnum [OF True] al obtain w ws where
        w: "wordsOf cs = w # ws" "wordsOf (c # cs) = (c # w) # ws" by blast
      from al have "\<not> leadingSep cs" by (simp add: leadingSep_def)
      with ih w have "trimEnd (replaceRuns cs) = joinHyphen (w # ws)" by simp
      with g w nl show ?thesis by (simp add: joinHyphen_Cons)
    next
      case sep: False
      then have w: "wordsOf (c # cs) = [c] # wordsOf cs"
        using wordsOf_alnum_then_sep [OF True, of cs] by blast
      show ?thesis
      proof (cases "wordsOf cs = []")
        case True
        with ih have "trimEnd (replaceRuns cs) = []" by simp
        with g w nl True show ?thesis by simp
      next
        case False
        have "leadingSep cs"
        proof (cases cs)
          case Nil
          with False show ?thesis by (simp add: wordsOf_Nil)
        next
          case (Cons d ds)
          with sep show ?thesis by (simp add: leadingSep_def)
        qed
        with ih False have "trimEnd (replaceRuns cs) = CHR ''-'' # joinHyphen (wordsOf cs)" by simp
        with g w nl False show ?thesis by (simp add: joinHyphen_Cons)
      qed
    qed
  next
    case False
    let ?ds = "dropWhile (\<lambda>d. \<not> isAlnum d) cs"
    have h: "isHyphen CHR ''-''" by (simp add: isHyphen_def)
    have g: "trimEnd (replaceRuns (c # cs))
               = (if trimEnd (replaceRuns ?ds) = [] then [] else CHR ''-'' # trimEnd (replaceRuns ?ds))"
      using False h by (simp add: replaceRuns.simps trimEnd_Cons)
    have nl: "\<not> leadingSep ?ds" using dropWhile_sep_start [of cs] by (auto simp: leadingSep_def)
    from 2(2) [OF False] nl have ih: "trimEnd (replaceRuns ?ds) = joinHyphen (wordsOf ?ds)" by simp
    have w: "wordsOf (c # cs) = wordsOf ?ds"
      using False by (simp add: wordsOf_sep wordsOf_dropWhile)
    have ls: "leadingSep (c # cs)" using False by (simp add: leadingSep_def)
    show ?thesis
    proof (cases "wordsOf ?ds = []")
      case True
      with g ih w show ?thesis by simp
    next
      case False
      then have "joinHyphen (wordsOf ?ds) \<noteq> []"
        by (rule joinHyphen_empty) (use wordsOf_nonempty_words in blast)
      with g ih w ls False show ?thesis by simp
    qed
  qed
qed

lemma replaceRuns_start:
  "replaceRuns s = [] \<or> (if leadingSep s then isHyphen (hd (replaceRuns s)) else \<not> isHyphen (hd (replaceRuns s)))"
proof (cases s)
  case Nil
  then show ?thesis by (simp add: replaceRuns.simps)
next
  case (Cons c cs)
  show ?thesis
  proof (cases "isAlnum c")
    case True
    then have "\<not> isHyphen c" using hyphen_not_alnum by blast
    with True Cons show ?thesis by (simp add: replaceRuns.simps leadingSep_def)
  next
    case False
    with Cons show ?thesis by (simp add: replaceRuns.simps leadingSep_def isHyphen_def)
  qed
qed

lemma sanitize_words:
  "trimHyphens (replaceRuns s) = joinHyphen (wordsOf s)"
proof (cases s)
  case Nil
  then show ?thesis by (simp add: replaceRuns.simps trimHyphens_def wordsOf_Nil)
next
  case (Cons c cs)
  show ?thesis
  proof (cases "isAlnum c")
    case True
    then have nh: "\<not> isHyphen c" using hyphen_not_alnum by blast
    have "trimHyphens (replaceRuns s) = trimEnd (replaceRuns s)"
      using Cons True nh by (simp add: trimHyphens_trimEnd replaceRuns.simps)
    moreover have "\<not> leadingSep s" using Cons True by (simp add: leadingSep_def)
    ultimately show ?thesis by (simp add: trimEnd_replaceRuns)
  next
    case False
    let ?ds = "dropWhile (\<lambda>d. \<not> isAlnum d) cs"
    have r: "replaceRuns s = CHR ''-'' # replaceRuns ?ds"
      using Cons False by (simp add: replaceRuns.simps)
    have nl: "\<not> leadingSep ?ds" using dropWhile_sep_start [of cs] by (auto simp: leadingSep_def)
    have "dropWhile isHyphen (replaceRuns ?ds) = replaceRuns ?ds"
      using replaceRuns_start [of ?ds] nl by (cases "replaceRuns ?ds") auto
    then have "trimHyphens (replaceRuns s) = trimEnd (replaceRuns ?ds)"
      using r by (simp add: trimHyphens_trimEnd isHyphen_def)
    also have "\<dots> = joinHyphen (wordsOf ?ds)" using nl by (simp add: trimEnd_replaceRuns)
    also have "wordsOf ?ds = wordsOf s" using Cons False by (simp add: wordsOf_sep wordsOf_dropWhile)
    finally show ?thesis .
  qed
qed


subsection \<open>The shape of the time stamp\<close>

text \<open>
  A text fits the pattern \<^verbatim>\<open>dddd-dd-dd_dd-dd-dd\<close> when it has a digit wherever the
  pattern has a \<open>d\<close> and the pattern's own character everywhere else.
\<close>

definition fits :: "char \<Rightarrow> char \<Rightarrow> bool" where
  "fits p c = (if p = CHR ''d'' then isDigit c else c = p)"

definition stampPattern :: string where
  "stampPattern = ''dddd-dd-dd_dd-dd-dd''"

lemma showNat_digits: "list_all isDigit (showNat n)"
proof (induction n rule: showNat.induct)
  case (1 n)
  show ?case
  proof (cases "n < 10")
    case True
    then show ?thesis by (subst showNat.simps) (simp add: digitChar_isDigit)
  next
    case False
    with 1 show ?thesis by (subst showNat.simps) (simp add: digitChar_isDigit)
  qed
qed

lemma showNat_length_1: "n < 10 \<Longrightarrow> length (showNat n) = 1"
  by (subst showNat.simps) simp

lemma showNat_length_2: "10 \<le> n \<Longrightarrow> n < 100 \<Longrightarrow> length (showNat n) = 2"
  by (subst showNat.simps) (simp add: showNat_length_1)

lemma showNat_length_3: "100 \<le> n \<Longrightarrow> n < 1000 \<Longrightarrow> length (showNat n) = 3"
  by (subst showNat.simps) (simp add: showNat_length_2)

lemma showNat_length_4: "1000 \<le> n \<Longrightarrow> n < 10000 \<Longrightarrow> length (showNat n) = 4"
  by (subst showNat.simps) (simp add: showNat_length_3)

lemma zero_isDigit: "isDigit CHR ''0''"
  by (simp add: isDigit_def)

lemma padStart2_two:
  "n < 100 \<Longrightarrow> length (padStart2 (showNat n)) = 2 \<and> list_all isDigit (padStart2 (showNat n))"
proof (cases "n < 10")
  case True
  then show ?thesis by (simp add: padStart2_def showNat_length_1 showNat_digits zero_isDigit)
next
  case False
  assume "n < 100"
  with False show ?thesis by (simp add: padStart2_def showNat_length_2 showNat_digits)
qed

lemma fits_digits:
  "length s = n \<Longrightarrow> list_all isDigit s \<Longrightarrow> list_all2 fits (replicate n CHR ''d'') s"
  by (induction s arbitrary: n) (auto simp: fits_def)

lemma fits_two: "n < 100 \<Longrightarrow> list_all2 fits ''dd'' (padStart2 (showNat n))"
  using fits_digits [of "padStart2 (showNat n)" 2] padStart2_two [of n]
  by (simp add: numeral_2_eq_2)

lemma fits_four: "1000 \<le> n \<Longrightarrow> n < 10000 \<Longrightarrow> list_all2 fits ''dddd'' (showNat n)"
  using fits_digits [of "showNat n" 4] showNat_length_4 [of n] showNat_digits [of n]
  by (simp add: numeral_eq_Suc)

lemma fits_sep: "list_all2 fits ''-'' ''-''" "list_all2 fits ''_'' ''_''"
  by (simp_all add: fits_def)

lemma timestamp_pattern:
  assumes "1000 \<le> getFullYear now" "getFullYear now < 10000" "getMonth now < 12"
    "getDate now < 32" "getHours now < 24" "getMinutes now < 60" "getSeconds now < 60"
  shows "list_all2 fits stampPattern (timestamp now)"
proof -
  have pat: "stampPattern = ''dddd'' @ ''-'' @ ''dd'' @ ''-'' @ ''dd'' @ ''_'' @ ''dd'' @ ''-'' @ ''dd'' @ ''-'' @ ''dd''"
    by (simp add: stampPattern_def)
  show ?thesis
    unfolding pat timestamp_def
    by (intro list_all2_appendI fits_sep fits_two fits_four) (use assms in simp_all)
qed


lemma safeTitle_charset:
  assumes "x \<in> set (safeTitle (Some t))"
  shows "x \<in> set (lowerCase @ digits @ ''-'')"
proof (cases "t = []")
  case True
  with assms show ?thesis by (auto simp: safeTitle_def lowerCase_def)
next
  case False
  with assms have "x \<in> set (trimHyphens (replaceRuns (map toLowerCase t)))"
    by (simp add: safeTitle_def)
  then have "x \<in> set (replaceRuns (map toLowerCase t))" by (rule trimHyphens_set)
  then have "x = CHR ''-'' \<or> (x \<in> set (map toLowerCase t) \<and> isAlnum x)" by (rule replaceRuns_set)
  then show ?thesis
  proof
    assume "x = CHR ''-''"
    then show ?thesis by simp
  next
    assume "x \<in> set (map toLowerCase t) \<and> isAlnum x"
    then obtain c where "x = toLowerCase c" "isAlnum (toLowerCase c)" by auto
    with toLowerCase_alnum [of c] show ?thesis by auto
  qed
qed

text \<open>
  Reading a time stamp back: the six numbers written at the places of the pattern's
  digit groups, as decimal numbers.
\<close>

definition digitsValue :: "string \<Rightarrow> nat" where
  "digitsValue s = foldl (\<lambda>n c. 10 * n + digitValue c) 0 s"

definition stampFields :: "string \<Rightarrow> nat list" where
  "stampFields ts =
     map digitsValue [take 4 ts, take 2 (drop 5 ts), take 2 (drop 8 ts), take 2 (drop 11 ts),
                      take 2 (drop 14 ts), take 2 (drop 17 ts)]"

lemma digitValue_digitChar: "d < 10 \<Longrightarrow> digitValue (digitChar d) = d"
proof -
  assume "d < 10"
  then have "d \<in> {0,1,2,3,4,5,6,7,8,9}" by auto
  then show ?thesis by (auto simp: digitChar_def digitValue_def)
qed

lemma digitsValue_snoc: "digitsValue (s @ [c]) = 10 * digitsValue s + digitValue c"
  by (simp add: digitsValue_def)

lemma digitsValue_showNat: "digitsValue (showNat n) = n"
proof (induction n rule: showNat.induct)
  case (1 n)
  show ?case
  proof (cases "n < 10")
    case True
    then show ?thesis
      by (subst showNat.simps) (simp add: digitsValue_def digitValue_digitChar)
  next
    case False
    with 1 have "digitsValue (showNat (n div 10)) = n div 10" by simp
    with False show ?thesis
      by (subst showNat.simps) (simp add: digitsValue_snoc digitValue_digitChar)
  qed
qed

lemma digitsValue_zeros: "digitsValue (replicate k CHR ''0'' @ s) = digitsValue s"
  by (induction k) (simp_all add: digitsValue_def digitValue_def)

lemma digitsValue_padStart2: "digitsValue (padStart2 (showNat n)) = n"
  by (simp add: padStart2_def digitsValue_zeros digitsValue_showNat)

lemma stamp_split:
  assumes "length y = 4" "length mo = 2" "length d = 2" "length h = 2" "length mi = 2" "length s = 2"
  shows "stampFields (y @ ''-'' @ mo @ ''-'' @ d @ ''_'' @ h @ ''-'' @ mi @ ''-'' @ s)
           = map digitsValue [y, mo, d, h, mi, s]"
  using assms by (simp add: stampFields_def)

lemma timestamp_fields:
  assumes "1000 \<le> getFullYear now" "getFullYear now < 10000" "getMonth now < 12"
    "getDate now < 32" "getHours now < 24" "getMinutes now < 60" "getSeconds now < 60"
  shows "stampFields (timestamp now)
           = [getFullYear now, getMonth now + 1, getDate now, getHours now, getMinutes now,
              getSeconds now]"
proof -
  have "stampFields (timestamp now)
      = map digitsValue [showNat (getFullYear now), padStart2 (showNat (getMonth now + 1)),
          padStart2 (showNat (getDate now)), padStart2 (showNat (getHours now)),
          padStart2 (showNat (getMinutes now)), padStart2 (showNat (getSeconds now))]"
    unfolding timestamp_def
    by (rule stamp_split) (use assms in \<open>simp_all add: showNat_length_4 padStart2_two\<close>)
  then show ?thesis by (simp add: digitsValue_showNat digitsValue_padStart2)
qed

lemma stampFields_prefix: "length ts = 19 \<Longrightarrow> stampFields (ts @ rest) = stampFields ts"
  by (simp add: stampFields_def)

lemma timestamp_length:
  assumes "list_all2 fits stampPattern (timestamp now)"
  shows "length (timestamp now) = 19"
  using list_all2_lengthD [OF assms] by (simp add: stampPattern_def)

text \<open>3 November 2026, 09:05:00. \<^verbatim>\<open>getMonth()\<close> counts from 0.\<close>

definition launch :: clock where
  "launch = \<lparr>getFullYear = 2026, getMonth = 10, getDate = 3, getHours = 9, getMinutes = 5, getSeconds = 0\<rparr>"

text \<open>
  C9. \<open>generateFileName\<close> is a function of the clock, the title and the extension, and
  returns the sanitized title, a hyphen, the time stamp, a dot and the extension. An
  absent or empty title gives the prefix \<^verbatim>\<open>tradeflight\<close>, and \<^verbatim>\<open>My Trip!\<close> gives
  \<^verbatim>\<open>my-trip\<close>. The sanitized form of a title that is not empty is its lower-case words
  joined by single hyphens: it consists of lower-case letters, digits and hyphens, keeps
  the letters and digits of the title in order, has no two hyphens in a row and neither
  starts nor ends with a hyphen. For a clock with a four-digit year the time stamp fits
  \<^verbatim>\<open>YYYY-MM-DD_HH-mm-ss\<close>, and the numbers read back from its six digit groups, in
  the stamp and in the file name after the prefix and its hyphen, are the clock's year,
  month plus 1, day, hours, minutes and seconds; the file name ends with a dot and the
  extension.
\<close>

theorem generateFileName_format:
  "generateFileName now title ext = safeTitle title @ ''-'' @ timestamp now @ ''.'' @ ext \<and>
   safeTitle None = ''tradeflight'' \<and>
   safeTitle (Some []) = ''tradeflight'' \<and>
   safeTitle (Some ''My Trip!'') = ''my-trip'' \<and>
   (t \<noteq> [] \<longrightarrow>
      safeTitle (Some t) = trimHyphens (replaceRuns (map toLowerCase t)) \<and>
      safeTitle (Some t) = joinHyphen (wordsOf (map toLowerCase t)) \<and>
      set (safeTitle (Some t)) \<subseteq> set (lowerCase @ digits @ ''-'') \<and>
      filter isAlnum (safeTitle (Some t)) = map toLowerCase (filter isAlnum t) \<and>
      \<not> adjacentHyphens (safeTitle (Some t)) \<and>
      (safeTitle (Some t) \<noteq> [] \<longrightarrow>
         \<not> isHyphen (hd (safeTitle (Some t))) \<and> \<not> isHyphen (last (safeTitle (Some t))))) \<and>
   (1000 \<le> getFullYear now \<and> getFullYear now < 10000 \<and> getMonth now < 12 \<and> getDate now < 32 \<and>
    getHours now < 24 \<and> getMinutes now < 60 \<and> getSeconds now < 60 \<longrightarrow>
      list_all2 fits stampPattern (timestamp now) \<and>
      stampFields (timestamp now)
        = [getFullYear now, getMonth now + 1, getDate now, getHours now, getMinutes now,
           getSeconds now] \<and>
      stampFields (drop (length (safeTitle title) + 1) (generateFileName now title ext))
        = [getFullYear now, getMonth now + 1, getDate now, getHours now, getMinutes now,
           getSeconds now] \<and>
      drop (length (safeTitle title) + 20) (generateFileName now title ext) = CHR ''.'' # ext)"
proof (intro conjI impI)
  show "generateFileName now title ext = safeTitle title @ ''-'' @ timestamp now @ ''.'' @ ext"
    by (simp add: generateFileName_def)
  show "safeTitle None = ''tradeflight''" by (simp add: safeTitle_def)
  show "safeTitle (Some []) = ''tradeflight''" by (simp add: safeTitle_def)
  show "safeTitle (Some ''My Trip!'') = ''my-trip''"
    by (simp add: safeTitle_def replaceRuns.simps trimHyphens_def toLowerCase_def isAlnum_def
          isHyphen_def upperCase_def lowerCase_def digits_def)
next
  assume t: "t \<noteq> []"
  then show eq: "safeTitle (Some t) = trimHyphens (replaceRuns (map toLowerCase t))"
    by (simp add: safeTitle_def)
  show "safeTitle (Some t) = joinHyphen (wordsOf (map toLowerCase t))"
    unfolding eq by (rule sanitize_words)
  show "set (safeTitle (Some t)) \<subseteq> set (lowerCase @ digits @ ''-'')"
    using safeTitle_charset by blast
  have "filter isAlnum (safeTitle (Some t)) = filter isAlnum (map toLowerCase t)"
    unfolding eq by (simp only: trimHyphens_filter replaceRuns_filter)
  also have "\<dots> = map toLowerCase (filter isAlnum t)"
    by (simp add: filter_map comp_def toLowerCase_keeps_alnum)
  finally show "filter isAlnum (safeTitle (Some t)) = map toLowerCase (filter isAlnum t)" .
  show "\<not> adjacentHyphens (safeTitle (Some t))"
    unfolding eq using trimHyphens_adjacent replaceRuns_adjacent by blast
next
  assume "t \<noteq> []" and ne: "safeTitle (Some t) \<noteq> []"
  then have eq: "safeTitle (Some t) = trimHyphens (replaceRuns (map toLowerCase t))"
    by (simp add: safeTitle_def)
  from ne trimHyphens_ends [of "replaceRuns (map toLowerCase t)"]
  show "\<not> isHyphen (hd (safeTitle (Some t)))" unfolding eq by blast
  from ne trimHyphens_ends [of "replaceRuns (map toLowerCase t)"]
  show "\<not> isHyphen (last (safeTitle (Some t)))" unfolding eq by blast
next
  assume "1000 \<le> getFullYear now \<and> getFullYear now < 10000 \<and> getMonth now < 12 \<and> getDate now < 32 \<and>
    getHours now < 24 \<and> getMinutes now < 60 \<and> getSeconds now < 60"
  then have pat: "list_all2 fits stampPattern (timestamp now)"
    and fields: "stampFields (timestamp now)
        = [getFullYear now, getMonth now + 1, getDate now, getHours now, getMinutes now,
           getSeconds now]"
    using timestamp_pattern timestamp_fields by blast+
  from pat show "list_all2 fits stampPattern (timestamp now)" .
  from fields show "stampFields (timestamp now)
        = [getFullYear now, getMonth now + 1, getDate now, getHours now, getMinutes now,
           getSeconds now]" .
  have len: "length (timestamp now) = 19" by (rule timestamp_length [OF pat])
  have rest: "drop (length (safeTitle title) + 1) (generateFileName now title ext)
                = timestamp now @ CHR ''.'' # ext"
    by (simp add: generateFileName_def)
  show "stampFields (drop (length (safeTitle title) + 1) (generateFileName now title ext))
        = [getFullYear now, getMonth now + 1, getDate now, getHours now, getMinutes now,
           getSeconds now]"
    unfolding rest using fields stampFields_prefix [OF len] by simp
  show "drop (length (safeTitle title) + 20) (generateFileName now title ext) = CHR ''.'' # ext"
    using len by (simp add: generateFileName_def)
qed

theorem generateFileName_format_witness:
  "generateFileName launch (Some ''Q3: Sales / 2026'') ''mp4'' = ''q3-sales-2026-2026-11-03_09-05-00.mp4'' \<and>
   ''Q3: Sales / 2026'' \<noteq> [] \<and>
   safeTitle (Some ''Q3: Sales / 2026'') = ''q3-sales-2026'' \<and>
   joinHyphen (wordsOf (map toLowerCase ''Q3: Sales / 2026'')) = ''q3-sales-2026'' \<and>
   timestamp launch = ''2026-11-03_09-05-00'' \<and>
   list_all2 fits stampPattern (timestamp launch) \<and>
   stampFields (timestamp launch) = [2026, 11, 3, 9, 5, 0] \<and>
   generateFileName launch None ''webm'' = ''tradeflight-2026-11-03_09-05-00.webm''"
proof -
  note T = generateFileName_format [of launch "Some ''Q3: Sales / 2026''" "''mp4''" "''Q3: Sales / 2026''"]
  note U = generateFileName_format [of launch None "''webm''" "''Q3: Sales / 2026''"]
  have ne: "''Q3: Sales / 2026'' \<noteq> []" by simp
  have st: "safeTitle (Some ''Q3: Sales / 2026'') = ''q3-sales-2026''"
    by (simp add: safeTitle_def replaceRuns.simps trimHyphens_def toLowerCase_def isAlnum_def
          isHyphen_def upperCase_def lowerCase_def digits_def)
  have ts: "timestamp launch = ''2026-11-03_09-05-00''"
    by (simp add: timestamp_def launch_def showNat.simps padStart2_def digitChar_def)
  have clock: "1000 \<le> getFullYear launch \<and> getFullYear launch < 10000 \<and> getMonth launch < 12 \<and>
    getDate launch < 32 \<and> getHours launch < 24 \<and> getMinutes launch < 60 \<and> getSeconds launch < 60"
    by (simp add: launch_def)
  from T have "generateFileName launch (Some ''Q3: Sales / 2026'') ''mp4''
      = safeTitle (Some ''Q3: Sales / 2026'') @ ''-'' @ timestamp launch @ ''.'' @ ''mp4''" by blast
  then have a: "generateFileName launch (Some ''Q3: Sales / 2026'') ''mp4'' = ''q3-sales-2026-2026-11-03_09-05-00.mp4''"
    unfolding st ts by simp
  from T ne have "safeTitle (Some ''Q3: Sales / 2026'') = joinHyphen (wordsOf (map toLowerCase ''Q3: Sales / 2026''))"
    by blast
  then have b: "joinHyphen (wordsOf (map toLowerCase ''Q3: Sales / 2026'')) = ''q3-sales-2026''"
    unfolding st by simp
  from T clock have c: "list_all2 fits stampPattern (timestamp launch)" by blast
  from T clock have "stampFields (timestamp launch)
      = [getFullYear launch, getMonth launch + 1, getDate launch, getHours launch,
         getMinutes launch, getSeconds launch]" by blast
  then have f: "stampFields (timestamp launch) = [2026, 11, 3, 9, 5, 0]"
    by (simp add: launch_def)
  from U have "generateFileName launch None ''webm''
      = safeTitle None @ ''-'' @ timestamp launch @ ''.'' @ ''webm''" and "safeTitle None = ''tradeflight''"
    by blast+
  then have d: "generateFileName launch None ''webm'' = ''tradeflight-2026-11-03_09-05-00.webm''"
    unfolding ts by simp
  from a ne st b ts c f d show ?thesis by blast
qed

section \<open>Export to MP4 (downloadMp4, lines 724--787)\<close>

text \<open>
  The body of \<^verbatim>\<open>downloadMp4\<close> is one \<^verbatim>\<open>try\<close> block of awaited calls and one
  \<^verbatim>\<open>catch\<close>. Each call that can throw or reject is a stage; the environment says
  which stages fail, whether the encoding engine is loaded already and whether an audio
  file was given. \<open>BytesCheck\<close> fails when \<^verbatim>\<open>readFile\<close> returned a string
  (\<^verbatim>\<open>if (typeof data === "string") throw new Error()\<close>).

  A run is the list of what it did, in order: the toasts, the calls that succeeded, and
  the click on the download anchor. A block returns its actions and whether it ended
  without an exception; a stage that fails ends the block with the actions so far.
\<close>

datatype stage =
  Record | Load | FetchVideo | WriteVideo | FetchAudio | WriteAudio | Exec | Read | BytesCheck

record env =
  fails :: "stage \<Rightarrow> bool"
  loaded :: bool
  audioFile :: bool

datatype action =
  ToastLoading string | ToastSuccess string | ToastError string
  | RecordAnimation bool | FfmpegLoad | WriteFile string | ExecCommand "string list"
  | ReadFile string | Click string

definition step :: "env \<Rightarrow> stage \<Rightarrow> action list \<Rightarrow> action list \<times> bool \<Rightarrow> action list \<times> bool" where
  "step e st acts rest = (if fails e st then ([], False) else (acts @ fst rest, snd rest))"

definition emit :: "action list \<Rightarrow> action list \<times> bool \<Rightarrow> action list \<times> bool" where
  "emit acts rest = (acts @ fst rest, snd rest)"

definition stepWhen :: "bool \<Rightarrow> env \<Rightarrow> stage \<Rightarrow> action list \<Rightarrow> action list \<times> bool \<Rightarrow> action list \<times> bool" where
  "stepWhen c e st acts rest = (if c then step e st acts rest else rest)"

definition audioArgs :: "string list" where
  "audioArgs = [''-i'', ''input.webm'', ''-i'', ''audio'', ''-c:v'', ''libx264'', ''-preset'',
                ''ultrafast'', ''-c:a'', ''aac'', ''-shortest'', ''output.mp4'']"

definition videoArgs :: "string list" where
  "videoArgs = [''-i'', ''input.webm'', ''-c:v'', ''libx264'', ''-preset'', ''ultrafast'',
                ''output.mp4'']"

definition readBack :: "env \<Rightarrow> clock \<Rightarrow> string option \<Rightarrow> action list \<times> bool" where
  "readBack e now title =
     step e Read [ReadFile ''output.mp4'']
       (step e BytesCheck []
          ([Click (generateFileName now title ''mp4''), ToastSuccess ''toast.mp4Downloaded''], True))"

definition tryBlock :: "env \<Rightarrow> clock \<Rightarrow> string option \<Rightarrow> action list \<times> bool" where
  "tryBlock e now title =
     step e Record [RecordAnimation False]
       (stepWhen (\<not> loaded e) e Load [FfmpegLoad]
          (emit [ToastLoading ''toast.preparingVideo'']
             (step e FetchVideo []
                (step e WriteVideo [WriteFile ''input.webm'']
                   (if audioFile e
                    then step e FetchAudio []
                           (step e WriteAudio [WriteFile ''audio'']
                              (emit [ToastLoading ''toast.mergingAudio'']
                                 (step e Exec [ExecCommand audioArgs] (readBack e now title))))
                    else step e Exec [ExecCommand videoArgs] (readBack e now title))))))"

definition downloadMp4 :: "env \<Rightarrow> clock \<Rightarrow> string option \<Rightarrow> action list" where
  "downloadMp4 e now title =
     ToastLoading ''toast.recording'' #
     (case tryBlock e now title of
        (acts, True) \<Rightarrow> acts
      | (acts, False) \<Rightarrow> acts @ [ToastError ''toast.mp4Failed''])"

definition stagesOf :: "env \<Rightarrow> stage list" where
  "stagesOf e =
     [Record] @ (if loaded e then [] else [Load]) @ [FetchVideo, WriteVideo]
     @ (if audioFile e then [FetchAudio, WriteAudio] else []) @ [Exec, Read, BytesCheck]"

fun isClick :: "action \<Rightarrow> bool" where
  "isClick (Click n) = True"
| "isClick a = False"

fun isError :: "action \<Rightarrow> bool" where
  "isError (ToastError m) = True"
| "isError a = False"

fun isSuccess :: "action \<Rightarrow> bool" where
  "isSuccess (ToastSuccess m) = True"
| "isSuccess a = False"

text \<open>
  Two invariants of the blocks, by which the claims about the whole run are proved:
  \<open>tidy\<close> counts the clicks and the result toasts of a block, and \<open>closes\<close> names the
  last three actions of a block that ends without an exception.
\<close>

definition quiet :: "action list \<Rightarrow> bool" where
  "quiet acts \<longleftrightarrow> filter isClick acts = [] \<and> filter isError acts = [] \<and> filter isSuccess acts = []"

definition tidy :: "string \<Rightarrow> action list \<times> bool \<Rightarrow> bool" where
  "tidy name r \<longleftrightarrow>
     filter isError (fst r) = [] \<and>
     filter isClick (fst r) = (if snd r then [Click name] else []) \<and>
     filter isSuccess (fst r) = (if snd r then [ToastSuccess ''toast.mp4Downloaded''] else [])"

definition ending :: "string \<Rightarrow> action list" where
  "ending name = [ReadFile ''output.mp4'', Click name, ToastSuccess ''toast.mp4Downloaded'']"

definition closes :: "string \<Rightarrow> action list \<times> bool \<Rightarrow> bool" where
  "closes name r \<longleftrightarrow> (\<not> snd r \<or> (\<exists>pre. fst r = pre @ ending name))"

lemma tidy_step: "quiet acts \<Longrightarrow> tidy name rest \<Longrightarrow> tidy name (step e st acts rest)"
  by (simp add: tidy_def quiet_def step_def)

lemma tidy_emit: "quiet acts \<Longrightarrow> tidy name rest \<Longrightarrow> tidy name (emit acts rest)"
  by (simp add: tidy_def quiet_def emit_def)

lemma tidy_stepWhen: "quiet acts \<Longrightarrow> tidy name rest \<Longrightarrow> tidy name (stepWhen c e st acts rest)"
  by (simp add: stepWhen_def tidy_step)

lemma tidy_click: "tidy name ([Click name, ToastSuccess ''toast.mp4Downloaded''], True)"
  by (simp add: tidy_def)

lemma quiet_simps:
  "quiet []" "quiet [RecordAnimation b]" "quiet [FfmpegLoad]" "quiet [ToastLoading m]"
  "quiet [WriteFile f]" "quiet [ExecCommand args]" "quiet [ReadFile f]"
  by (simp_all add: quiet_def)

lemma tidy_readBack: "tidy (generateFileName now title ''mp4'') (readBack e now title)"
  unfolding readBack_def by (intro tidy_step tidy_click quiet_simps)

lemma tidy_tryBlock: "tidy (generateFileName now title ''mp4'') (tryBlock e now title)"
proof (cases "audioFile e")
  case True
  then show ?thesis
    unfolding tryBlock_def
    by (simp only: if_True) (intro tidy_step tidy_emit tidy_stepWhen tidy_readBack quiet_simps)
next
  case False
  then show ?thesis
    unfolding tryBlock_def
    by (simp only: if_False) (intro tidy_step tidy_emit tidy_stepWhen tidy_readBack quiet_simps)
qed

lemma snd_step: "snd (step e st acts rest) \<longleftrightarrow> \<not> fails e st \<and> snd rest"
  by (simp add: step_def)

lemma snd_emit: "snd (emit acts rest) = snd rest"
  by (simp add: emit_def)

lemma snd_stepWhen: "snd (stepWhen c e st acts rest) \<longleftrightarrow> (c \<longrightarrow> \<not> fails e st) \<and> snd rest"
  by (simp add: stepWhen_def snd_step)

lemma snd_readBack: "snd (readBack e now title) \<longleftrightarrow> \<not> fails e Read \<and> \<not> fails e BytesCheck"
  by (simp add: readBack_def snd_step)

lemma tryBlock_ok: "snd (tryBlock e now title) \<longleftrightarrow> (\<forall>st \<in> set (stagesOf e). \<not> fails e st)"
proof (cases "audioFile e")
  case True
  then show ?thesis
    by (cases "loaded e")
       (auto simp add: tryBlock_def stagesOf_def snd_step snd_emit snd_stepWhen snd_readBack)
next
  case False
  then show ?thesis
    by (cases "loaded e")
       (auto simp add: tryBlock_def stagesOf_def snd_step snd_emit snd_stepWhen snd_readBack)
qed


lemma closes_step: "closes name rest \<Longrightarrow> closes name (step e st acts rest)"
  by (auto simp: closes_def step_def)

lemma closes_emit: "closes name rest \<Longrightarrow> closes name (emit acts rest)"
  by (auto simp: closes_def emit_def)

lemma closes_stepWhen: "closes name rest \<Longrightarrow> closes name (stepWhen c e st acts rest)"
  by (simp add: stepWhen_def closes_step)

lemma closes_readBack: "closes (generateFileName now title ''mp4'') (readBack e now title)"
  by (simp add: closes_def readBack_def step_def ending_def)

lemma closes_tryBlock: "closes (generateFileName now title ''mp4'') (tryBlock e now title)"
proof (cases "audioFile e")
  case True
  then show ?thesis
    unfolding tryBlock_def
    by (simp only: if_True) (intro closes_step closes_emit closes_stepWhen closes_readBack)
next
  case False
  then show ?thesis
    unfolding tryBlock_def
    by (simp only: if_False) (intro closes_step closes_emit closes_stepWhen closes_readBack)
qed

lemma downloadMp4_failed:
  assumes "\<not> snd (tryBlock e now title)"
  shows "downloadMp4 e now title
           = ToastLoading ''toast.recording'' # fst (tryBlock e now title) @ [ToastError ''toast.mp4Failed'']"
  using assms by (cases "tryBlock e now title") (simp add: downloadMp4_def)

lemma downloadMp4_done:
  assumes "snd (tryBlock e now title)"
  shows "downloadMp4 e now title = ToastLoading ''toast.recording'' # fst (tryBlock e now title)"
  using assms by (cases "tryBlock e now title") (simp add: downloadMp4_def)

lemma click_needs_success:
  assumes "Click n \<in> set (downloadMp4 e now title)"
  shows "snd (tryBlock e now title) \<and> n = generateFileName now title ''mp4''"
proof -
  let ?name = "generateFileName now title ''mp4''"
  have t: "tidy ?name (tryBlock e now title)" by (rule tidy_tryBlock)
  show ?thesis
  proof (cases "snd (tryBlock e now title)")
    case True
    from assms have "Click n \<in> set (filter isClick (downloadMp4 e now title))" by simp
    with True t have "Click n \<in> set [Click ?name]"
      by (simp add: downloadMp4_done tidy_def)
    with True show ?thesis by simp
  next
    case False
    from assms have "Click n \<in> set (filter isClick (downloadMp4 e now title))" by simp
    with False t show ?thesis by (simp add: downloadMp4_failed tidy_def)
  qed
qed

text \<open>
  C8. When a stage that the run reaches fails (the recording, the load of the engine,
  fetching or writing the capture or the audio file, the transcode command, reading the
  output back, or an output that is a string), the run reports exactly one failure, as
  its last action, and contains no click on the download anchor and no success toast.
  When no stage fails it contains exactly one click, with the generated MP4 file name,
  one success toast and no failure. A click only occurs directly after the output file
  has been read back.
\<close>

theorem downloadMp4_failure_reported_once:
  "((\<exists>st \<in> set (stagesOf e). fails e st) \<longrightarrow>
      filter isError (downloadMp4 e now title) = [ToastError ''toast.mp4Failed''] \<and>
      last (downloadMp4 e now title) = ToastError ''toast.mp4Failed'' \<and>
      filter isClick (downloadMp4 e now title) = [] \<and>
      filter isSuccess (downloadMp4 e now title) = []) \<and>
   ((\<forall>st \<in> set (stagesOf e). \<not> fails e st) \<longrightarrow>
      filter isError (downloadMp4 e now title) = [] \<and>
      filter isClick (downloadMp4 e now title) = [Click (generateFileName now title ''mp4'')] \<and>
      filter isSuccess (downloadMp4 e now title) = [ToastSuccess ''toast.mp4Downloaded'']) \<and>
   (Click n \<in> set (downloadMp4 e now title) \<longrightarrow>
      \<not> fails e Read \<and> \<not> fails e BytesCheck \<and> n = generateFileName now title ''mp4'' \<and>
      (\<exists>pre. downloadMp4 e now title
                = pre @ [ReadFile ''output.mp4'', Click n, ToastSuccess ''toast.mp4Downloaded'']))"
proof (intro conjI impI)
  let ?name = "generateFileName now title ''mp4''"
  have t: "tidy ?name (tryBlock e now title)" by (rule tidy_tryBlock)
  {
    assume "\<exists>st \<in> set (stagesOf e). fails e st"
    then have f: "\<not> snd (tryBlock e now title)" by (simp add: tryBlock_ok)
    from t f show "filter isError (downloadMp4 e now title) = [ToastError ''toast.mp4Failed'']"
      by (simp add: downloadMp4_failed [OF f] tidy_def)
    from f show "last (downloadMp4 e now title) = ToastError ''toast.mp4Failed''"
      by (simp add: downloadMp4_failed [OF f])
    from t f show "filter isClick (downloadMp4 e now title) = []"
      by (simp add: downloadMp4_failed [OF f] tidy_def)
    from t f show "filter isSuccess (downloadMp4 e now title) = []"
      by (simp add: downloadMp4_failed [OF f] tidy_def)
  }
  {
    assume "\<forall>st \<in> set (stagesOf e). \<not> fails e st"
    then have s: "snd (tryBlock e now title)" by (simp add: tryBlock_ok)
    from t s show "filter isError (downloadMp4 e now title) = []"
      by (simp add: downloadMp4_done [OF s] tidy_def)
    from t s show "filter isClick (downloadMp4 e now title) = [Click ?name]"
      by (simp add: downloadMp4_done [OF s] tidy_def)
    from t s show "filter isSuccess (downloadMp4 e now title) = [ToastSuccess ''toast.mp4Downloaded'']"
      by (simp add: downloadMp4_done [OF s] tidy_def)
  }
  {
    assume c: "Click n \<in> set (downloadMp4 e now title)"
    from click_needs_success [OF c] have s: "snd (tryBlock e now title)" and n: "n = ?name"
      by simp_all
    from s have all: "\<forall>st \<in> set (stagesOf e). \<not> fails e st" by (simp add: tryBlock_ok)
    then show "\<not> fails e Read" by (simp add: stagesOf_def)
    from all show "\<not> fails e BytesCheck" by (simp add: stagesOf_def)
    from n show "n = ?name" .
    from closes_tryBlock [of now title e] s obtain pre where
      "fst (tryBlock e now title) = pre @ ending ?name" by (auto simp: closes_def)
    then have "downloadMp4 e now title
        = (ToastLoading ''toast.recording'' # pre) @ [ReadFile ''output.mp4'', Click n, ToastSuccess ''toast.mp4Downloaded'']"
      using s n by (simp add: downloadMp4_done ending_def)
    then show "\<exists>pre. downloadMp4 e now title
                = pre @ [ReadFile ''output.mp4'', Click n, ToastSuccess ''toast.mp4Downloaded'']"
      by blast
  }
qed

text \<open>
  An export with an audio file whose transcode command fails, and an export without
  audio, on a loaded engine, in which nothing fails.
\<close>

definition execBreaks :: env where
  "execBreaks = \<lparr>fails = (\<lambda>st. st = Exec), loaded = False, audioFile = True\<rparr>"

definition allWell :: env where
  "allWell = \<lparr>fails = (\<lambda>st. False), loaded = True, audioFile = False\<rparr>"

theorem downloadMp4_failure_reported_once_witness:
  "Exec \<in> set (stagesOf execBreaks) \<and> fails execBreaks Exec \<and>
   downloadMp4 execBreaks launch None
     = [ToastLoading ''toast.recording'', RecordAnimation False, FfmpegLoad,
        ToastLoading ''toast.preparingVideo'', WriteFile ''input.webm'', WriteFile ''audio'',
        ToastLoading ''toast.mergingAudio'', ToastError ''toast.mp4Failed''] \<and>
   filter isError (downloadMp4 execBreaks launch None) = [ToastError ''toast.mp4Failed''] \<and>
   filter isClick (downloadMp4 execBreaks launch None) = [] \<and>
   filter isClick (downloadMp4 allWell launch None) = [Click ''tradeflight-2026-11-03_09-05-00.mp4''] \<and>
   Click ''tradeflight-2026-11-03_09-05-00.mp4'' \<in> set (downloadMp4 allWell launch None) \<and>
   \<not> fails allWell Read"
proof -
  note T = downloadMp4_failure_reported_once [of execBreaks launch None "''x''"]
  note U = downloadMp4_failure_reported_once [of allWell launch None "''tradeflight-2026-11-03_09-05-00.mp4''"]
  have st: "Exec \<in> set (stagesOf execBreaks)" by (simp add: stagesOf_def execBreaks_def)
  have fl: "fails execBreaks Exec" by (simp add: execBreaks_def)
  from st fl have ex: "\<exists>st \<in> set (stagesOf execBreaks). fails execBreaks st" by blast
  have run: "downloadMp4 execBreaks launch None
     = [ToastLoading ''toast.recording'', RecordAnimation False, FfmpegLoad,
        ToastLoading ''toast.preparingVideo'', WriteFile ''input.webm'', WriteFile ''audio'',
        ToastLoading ''toast.mergingAudio'', ToastError ''toast.mp4Failed'']"
    by (simp add: downloadMp4_def tryBlock_def readBack_def step_def stepWhen_def emit_def execBreaks_def)
  from T ex have a: "filter isError (downloadMp4 execBreaks launch None) = [ToastError ''toast.mp4Failed'']"
    and b: "filter isClick (downloadMp4 execBreaks launch None) = []" by blast+
  have name: "generateFileName launch None ''mp4'' = ''tradeflight-2026-11-03_09-05-00.mp4''"
    by (simp add: generateFileName_def safeTitle_def timestamp_def launch_def showNat.simps
          padStart2_def digitChar_def)
  have ok: "\<forall>st \<in> set (stagesOf allWell). \<not> fails allWell st" by (simp add: allWell_def)
  from U ok have c: "filter isClick (downloadMp4 allWell launch None) = [Click ''tradeflight-2026-11-03_09-05-00.mp4'']"
    unfolding name by blast
  then have "Click ''tradeflight-2026-11-03_09-05-00.mp4'' \<in> set (filter isClick (downloadMp4 allWell launch None))"
    by simp
  then have d: "Click ''tradeflight-2026-11-03_09-05-00.mp4'' \<in> set (downloadMp4 allWell launch None)"
    by simp
  from U d have e: "\<not> fails allWell Read" by blast
  from st fl run a b c d e show ?thesis by blast
qed

end
